theory Spec2Isabelle
  imports Main "HOL-Library.Multiset"
begin

section \<open>The entries and the lookup of the most stable one\<close>

text \<open>
  The notebook on reaction energies fetches a list \<^verbatim>\<open>all_entries\<close> and defines

  \<^verbatim>\<open>
  def get_most_stable_entry(formula):
      relevant_entries = [entry for entry in all_entries
          if entry.composition.reduced_formula == Composition(formula).reduced_formula]
      relevant_entries = sorted(relevant_entries, key=lambda e: e.energy_per_atom)
      return relevant_entries[0]
  \<close>

  Of an entry the function reads two attributes, \<^verbatim>\<open>composition.reduced_formula\<close> (a
  string) and \<^verbatim>\<open>energy_per_atom\<close> (a float). The entry is a record of these, with an
  identifier that tells apart two entries of equal formula and energy.
\<close>

subsection \<open>Floats\<close>

text \<open>
  The energy is a Python float: a number or NaN. The numbers (the infinities among them)
  are the values of a linear order \<open>'k\<close>. Python's \<open><\<close> and \<open><=\<close> on floats are the order
  of the numbers, and are false as soon as one side is NaN.
\<close>

datatype 'k pyfloat = NaN | Num 'k

fun float_lt :: "('k::linorder) pyfloat \<Rightarrow> 'k pyfloat \<Rightarrow> bool" where
  "float_lt (Num a) (Num b) \<longleftrightarrow> a < b"
| "float_lt _ _ \<longleftrightarrow> False"

fun float_le :: "('k::linorder) pyfloat \<Rightarrow> 'k pyfloat \<Rightarrow> bool" where
  "float_le (Num a) (Num b) \<longleftrightarrow> a \<le> b"
| "float_le _ _ \<longleftrightarrow> False"

text \<open>The number of a float that is not NaN.\<close>

fun num :: "'k pyfloat \<Rightarrow> 'k" where
  "num (Num k) = k"

subsection \<open>Entries and errors\<close>

record composition =
  reduced_formula :: string

record 'k computed_entry =
  entry_id :: string
  composition :: composition
  energy_per_atom :: "'k pyfloat"

text \<open>
  \<^verbatim>\<open>Composition(formula).reduced_formula\<close> is computed by the pymatgen library, from the
  string alone. It is a parameter \<open>Comp\<close> of the model: \<open>Comp formula = Inr r\<close> when the
  library parses the formula and reduces it to \<open>r\<close>, and \<open>Comp formula = Inl x\<close> when it
  raises the exception \<open>x\<close>.

  The errors of \<^verbatim>\<open>get_most_stable_entry\<close>: Python's \<^verbatim>\<open>IndexError\<close>, raised by
  \<^verbatim>\<open>relevant_entries[0]\<close> on an empty list, and whatever the library raised. The third
  constructor is the error kind that the specification names for a composition without
  entries; no path of the source produces it.
\<close>

datatype 'x error = IndexError | Raised 'x | NotFoundError

subsection \<open>Python's sorted\<close>

text \<open>
  \<^verbatim>\<open>sorted(xs, key=f)\<close> copies \<open>xs\<close> into a new list and sorts it with \<^verbatim>\<open>list.sort\<close>, which
  compares the keys with \<open><\<close> and with nothing else. On keys that \<open><\<close> orders linearly
  the result is the stable ascending sort, whatever the algorithm. On keys with a NaN
  the result depends on the comparisons the algorithm makes, so the algorithm of CPython
  3.9 (the notebook's interpreter) is embedded: \<open>lt x y\<close> is the comparison of the keys of
  two elements.

  \<^verbatim>\<open>count_run\<close> measures the run at the head of the list: the longest prefix in which no
  element is less than the one before it, or, when the second element is less than the
  first, the longest prefix in which every element is less than the one before it; the
  flag tells the second case.
\<close>

fun ascending_run :: "('a \<Rightarrow> 'a \<Rightarrow> bool) \<Rightarrow> 'a \<Rightarrow> 'a list \<Rightarrow> nat" where
  "ascending_run lt prev [] = 0"
| "ascending_run lt prev (x # xs) = (if lt x prev then 0 else Suc (ascending_run lt x xs))"

fun descending_run :: "('a \<Rightarrow> 'a \<Rightarrow> bool) \<Rightarrow> 'a \<Rightarrow> 'a list \<Rightarrow> nat" where
  "descending_run lt prev [] = 0"
| "descending_run lt prev (x # xs) = (if lt x prev then Suc (descending_run lt x xs) else 0)"

fun count_run :: "('a \<Rightarrow> 'a \<Rightarrow> bool) \<Rightarrow> 'a list \<Rightarrow> nat \<times> bool" where
  "count_run lt [] = (0, False)"
| "count_run lt [x] = (1, False)"
| "count_run lt (x # y # rest) =
     (if lt y x then (2 + descending_run lt y rest, True)
      else (2 + ascending_run lt y rest, False))"

text \<open>
  \<^verbatim>\<open>binarysort\<close> inserts the elements after the run into it, one by one from the left,
  each at the place that a binary search finds: the search keeps \<open>l < r\<close>, looks at the
  element in the middle and goes left of it when the pivot is less than it, right of it
  otherwise. The search reads \<open>xs ! p\<close> only at \<open>p < r\<close>, within the run.
\<close>

function bisect :: "('a \<Rightarrow> 'a \<Rightarrow> bool) \<Rightarrow> 'a \<Rightarrow> 'a list \<Rightarrow> nat \<Rightarrow> nat \<Rightarrow> nat" where
  "bisect lt pivot xs l r =
     (if l < r then
        (let p = l + (r - l) div 2 in
         if lt pivot (xs ! p) then bisect lt pivot xs l p
         else bisect lt pivot xs (p + 1) r)
      else l)"
  by pat_completeness auto
termination
  by (relation "measure (\<lambda>(lt, pivot, xs, l, r). r - l)") auto

declare bisect.simps [simp del]

fun binarysort :: "('a \<Rightarrow> 'a \<Rightarrow> bool) \<Rightarrow> 'a list \<Rightarrow> 'a list \<Rightarrow> 'a list" where
  "binarysort lt run [] = run"
| "binarysort lt run (pivot # rest) =
     (let l = bisect lt pivot run 0 (length run)
      in binarysort lt (take l run @ pivot # drop l run) rest)"

text \<open>
  \<^verbatim>\<open>list.sort\<close>: a list of fewer than two elements is left alone; otherwise the run at
  the head is measured, reversed when it descends, and extended by \<^verbatim>\<open>binarysort\<close>. For a
  list of fewer than 64 elements this is CPython's algorithm step by step (its minimal run
  length is then the length of the list). A longer list CPython cuts into several runs,
  each made in this way, and merges them; on keys without NaN that gives the same
  list, the stable ascending sort, and on 64 keys or more with a NaN among them the
  merges are not traced here.
\<close>

definition list_sort :: "('a \<Rightarrow> 'a \<Rightarrow> bool) \<Rightarrow> 'a list \<Rightarrow> 'a list" where
  "list_sort lt xs =
     (if length xs < 2 then xs
      else
        (let (n, descending) = count_run lt xs;
             run = (if descending then rev (take n xs) else take n xs)
         in binarysort lt run (drop n xs)))"

definition sorted_py :: "('a \<Rightarrow> ('k::linorder) pyfloat) \<Rightarrow> 'a list \<Rightarrow> 'a list" where
  "sorted_py key xs = list_sort (\<lambda>x y. float_lt (key x) (key y)) xs"

subsection \<open>The function on values\<close>

text \<open>
  The list comprehension. Its condition is evaluated once for each entry, so the formula
  is parsed only when there is an entry to compare with: on an empty \<^verbatim>\<open>all_entries\<close> the
  library is never called.
\<close>

fun comprehension ::
  "(string \<Rightarrow> 'x + string) \<Rightarrow> 'k computed_entry list \<Rightarrow> string
     \<Rightarrow> 'x error + 'k computed_entry list"
where
  "comprehension Comp [] formula = Inr []"
| "comprehension Comp (entry # rest) formula =
     (case Comp formula of
        Inl x \<Rightarrow> Inl (Raised x)
      | Inr r \<Rightarrow>
          (case comprehension Comp rest formula of
             Inl e \<Rightarrow> Inl e
           | Inr kept \<Rightarrow>
               Inr (if reduced_formula (composition entry) = r then entry # kept else kept)))"

text \<open>
  The value of the local variable \<^verbatim>\<open>relevant_entries\<close> after its second assignment.
\<close>

definition relevant_entries ::
  "(string \<Rightarrow> 'x + string) \<Rightarrow> ('k::linorder) computed_entry list \<Rightarrow> string
     \<Rightarrow> 'x error + 'k computed_entry list"
where
  "relevant_entries Comp entries formula =
     (case comprehension Comp entries formula of
        Inl e \<Rightarrow> Inl e
      | Inr kept \<Rightarrow> Inr (sorted_py energy_per_atom kept))"

text \<open>The function, with the list that \<^verbatim>\<open>all_entries\<close> holds as the argument \<open>entries\<close>.\<close>

definition get_most_stable_entry ::
  "(string \<Rightarrow> 'x + string) \<Rightarrow> ('k::linorder) computed_entry list \<Rightarrow> string
     \<Rightarrow> 'x error + 'k computed_entry"
where
  "get_most_stable_entry Comp entries formula =
     (case relevant_entries Comp entries formula of
        Inl e \<Rightarrow> Inl e
      | Inr [] \<Rightarrow> Inl IndexError
      | Inr (first # _) \<Rightarrow> Inr first)"

text \<open>The test of the comprehension, for a reduced formula and an entry.\<close>

definition same_reduced_formula :: "string \<Rightarrow> 'k computed_entry \<Rightarrow> bool" where
  "same_reduced_formula r entry \<longleftrightarrow> reduced_formula (composition entry) = r"

subsection \<open>The function on a store of list objects\<close>

text \<open>
  Python lists are objects, and \<^verbatim>\<open>all_entries\<close> is a global name bound to one. The store
  holds the list objects, addressed by their position in \<open>heap\<close>, and the binding of the
  global name. A store is well formed when the name refers to an allocated list.
\<close>

record 'k store =
  heap :: "'k computed_entry list list"
  all_entries :: nat

definition well_formed :: "'k store \<Rightarrow> bool" where
  "well_formed s \<longleftrightarrow> all_entries s < length (heap s)"

text \<open>A new list object, at a fresh address; \<^verbatim>\<open>list.append\<close>, which changes an object in place.\<close>

definition new_list :: "'k computed_entry list \<Rightarrow> 'k store \<Rightarrow> nat \<times> 'k store" where
  "new_list xs s = (length (heap s), s\<lparr>heap := heap s @ [xs]\<rparr>)"

definition list_append :: "nat \<Rightarrow> 'k computed_entry \<Rightarrow> 'k store \<Rightarrow> 'k store" where
  "list_append a x s = s\<lparr>heap := (heap s)[a := heap s ! a @ [x] ]\<rparr>"

text \<open>
  The loop of the comprehension: the list iterator holds an index \<open>i\<close> into the list that
  \<^verbatim>\<open>all_entries\<close> refers to, reads the list anew at each step and stops when the index
  reaches its length; an entry that passes the test is appended to the list under
  construction, at address \<open>result\<close>. A loop that appended to the list it iterates over
  would not stop, so the loop is a partial function and its result is \<open>None\<close> when it
  does not return. The first component of a result is the exception raised, if any.
\<close>

partial_function (option) comprehension_loop ::
  "(string \<Rightarrow> 'x + string) \<Rightarrow> string \<Rightarrow> nat \<Rightarrow> nat \<Rightarrow> 'k store
     \<Rightarrow> ('x error option \<times> 'k store) option"
where
  "comprehension_loop Comp formula result i s =
     (if i < length (heap s ! all_entries s) then
        (let entry = heap s ! all_entries s ! i in
         case Comp formula of
           Inl x \<Rightarrow> Some (Some (Raised x), s)
         | Inr r \<Rightarrow>
             comprehension_loop Comp formula result (Suc i)
               (if reduced_formula (composition entry) = r
                then list_append result entry s else s))
      else Some (None, s))"

text \<open>
  The call: the comprehension builds a new list, \<^verbatim>\<open>sorted\<close> builds another one, and the
  first element of that one is returned. The result is the outcome of the call (the entry
  returned or the exception raised) and the store it leaves.
\<close>

definition get_most_stable_entry_st ::
  "(string \<Rightarrow> 'x + string) \<Rightarrow> string \<Rightarrow> ('k::linorder) store
     \<Rightarrow> (('x error + 'k computed_entry) \<times> 'k store) option"
where
  "get_most_stable_entry_st Comp formula s =
     (let (result, s1) = new_list [] s in
      case comprehension_loop Comp formula result 0 s1 of
        None \<Rightarrow> None
      | Some (Some e, s2) \<Rightarrow> Some (Inl e, s2)
      | Some (None, s2) \<Rightarrow>
          (let (relevant_entries, s3) =
                 new_list (sorted_py energy_per_atom (heap s2 ! result)) s2 in
           case heap s3 ! relevant_entries of
             [] \<Rightarrow> Some (Inl IndexError, s3)
           | first # _ \<Rightarrow> Some (Inr first, s3)))"

subsection \<open>Concrete inputs\<close>

text \<open>
  A table that stands for the library on the formulas of the notebook, five entries of
  the Ca-C-O system with integer energies (two of them of equal, lowest energy), a
  store in which \<^verbatim>\<open>all_entries\<close> refers to them, and three entries of \<^verbatim>\<open>CaO\<close> of which the
  second has the energy NaN.
\<close>

definition Comp_example :: "string \<Rightarrow> unit + string" where
  "Comp_example formula =
     (if formula = ''CaO'' \<or> formula = ''Ca2O2'' then Inr ''CaO''
      else if formula = ''CO2'' then Inr ''CO2''
      else if formula = ''CaCO3'' then Inr ''CaCO3''
      else Inl ())"

definition entry_example :: "string \<Rightarrow> string \<Rightarrow> int \<Rightarrow> int computed_entry" where
  "entry_example i r e =
     \<lparr>entry_id = i, composition = \<lparr>reduced_formula = r\<rparr>, energy_per_atom = Num e\<rparr>"

definition entries_example :: "int computed_entry list" where
  "entries_example =
     [entry_example ''a'' ''CaO'' (- 6),
      entry_example ''b'' ''CO2'' (- 8),
      entry_example ''c'' ''CaO'' (- 7),
      entry_example ''d'' ''CaCO3'' (- 8),
      entry_example ''e'' ''CaO'' (- 7)]"

definition store_example :: "int store" where
  "store_example = \<lparr>heap = [ [], entries_example ], all_entries = 1\<rparr>"

definition entry_nan_example :: "int computed_entry" where
  "entry_nan_example =
     \<lparr>entry_id = ''n'', composition = \<lparr>reduced_formula = ''CaO''\<rparr>, energy_per_atom = NaN\<rparr>"

definition entries_nan_example :: "int computed_entry list" where
  "entries_nan_example =
     [entry_example ''a'' ''CaO'' (- 6),
      entry_nan_example,
      entry_example ''c'' ''CaO'' (- 7)]"

section \<open>Sorting keys without NaN\<close>

text \<open>
  In the lemmas below \<open>lt\<close> agrees on the elements of the list with the order of a
  function \<open>g\<close> into a linear order, as the comparison of float keys does when none of
  them is NaN.
\<close>

lemma sorted_py_Nil: "sorted_py key [] = []"
  by (simp add: sorted_py_def list_sort_def)

subsection \<open>The result is a permutation\<close>

lemma set_take_drop: "set (take n xs) \<union> set (drop n xs) = set xs"
  using set_append [of "take n xs" "drop n xs"] by (simp only: append_take_drop_id)

lemma set_binarysort: "set (binarysort lt run rest) = set run \<union> set rest"
proof (induction rest arbitrary: run)
  case Nil
  show ?case by simp
next
  case (Cons pivot rest)
  let ?l = "bisect lt pivot run 0 (length run)"
  have "set (take ?l run @ pivot # drop ?l run) = insert pivot (set run)"
    using set_take_drop [of ?l run] by auto
  then show ?case
    using Cons.IH [of "take ?l run @ pivot # drop ?l run"] by (simp add: Let_def)
qed

lemma set_list_sort: "set (list_sort lt xs) = set xs"
proof (cases "length xs < 2")
  case True
  then show ?thesis by (simp add: list_sort_def)
next
  case False
  obtain n d where nd: "count_run lt xs = (n, d)"
    by (cases "count_run lt xs")
  have "set (take n xs) \<union> set (drop n xs) = set xs"
    using set_append [of "take n xs" "drop n xs"] by (simp only: append_take_drop_id)
  then show ?thesis
    using False nd by (simp add: list_sort_def set_binarysort)
qed

subsection \<open>The result is sorted\<close>

lemma ascending_run_sorted:
  fixes g :: "'a \<Rightarrow> 'k::linorder"
  assumes "\<And>x y. x \<in> insert prev (set xs) \<Longrightarrow> y \<in> insert prev (set xs) \<Longrightarrow> lt x y \<longleftrightarrow> g x < g y"
  shows "sorted (map g (prev # take (ascending_run lt prev xs) xs))"
  using assms
proof (induction xs arbitrary: prev)
  case Nil
  show ?case by simp
next
  case (Cons x xs)
  have lin: "lt x prev \<longleftrightarrow> g x < g prev"
    using Cons.prems [of x prev] by simp
  have "sorted (map g (x # take (ascending_run lt x xs) xs))"
    by (rule Cons.IH) (simp add: Cons.prems)
  then show ?case
    using lin by (auto simp: not_less)
qed

lemma descending_run_sorted:
  fixes g :: "'a \<Rightarrow> 'k::linorder"
  assumes "\<And>x y. x \<in> insert prev (set xs) \<Longrightarrow> y \<in> insert prev (set xs) \<Longrightarrow> lt x y \<longleftrightarrow> g x < g y"
  shows "sorted_wrt (\<lambda>a b. g b < g a) (prev # take (descending_run lt prev xs) xs)"
  using assms
proof (induction xs arbitrary: prev)
  case Nil
  show ?case by simp
next
  case (Cons x xs)
  have lin: "lt x prev \<longleftrightarrow> g x < g prev"
    using Cons.prems [of x prev] by simp
  have IH: "sorted_wrt (\<lambda>a b. g b < g a) (x # take (descending_run lt x xs) xs)"
    by (rule Cons.IH) (simp add: Cons.prems)
  show ?case
  proof (cases "lt x prev")
    case True
    then have "g x < g prev" using lin by simp
    then have "\<forall>y \<in> set (x # take (descending_run lt x xs) xs). g y < g prev"
      using IH by auto
    then show ?thesis
      using True IH by simp
  next
    case False
    then show ?thesis by simp
  qed
qed

lemma rev_descending_sorted:
  fixes g :: "'a \<Rightarrow> 'k::linorder"
  assumes "sorted_wrt (\<lambda>a b. g b < g a) ys"
  shows "sorted (map g (rev ys))"
proof -
  have "sorted_wrt (\<lambda>a b. g a < g b) (rev ys)"
    using assms by (simp add: sorted_wrt_rev)
  then have "sorted_wrt (\<lambda>a b. g a \<le> g b) (rev ys)"
    by (rule sorted_wrt_mono_rel [rotated]) simp
  then show ?thesis
    by (simp add: sorted_wrt_map)
qed

lemma bisect_bounds:
  fixes g :: "'a \<Rightarrow> 'k::linorder"
  assumes lin: "\<And>y. y \<in> set run \<Longrightarrow> lt pivot y \<longleftrightarrow> g pivot < g y"
    and srt: "sorted (map g run)"
    and "l \<le> r" and "r \<le> length run"
    and "\<forall>i<l. g (run ! i) \<le> g pivot"
    and "\<forall>i. r \<le> i \<and> i < length run \<longrightarrow> g pivot < g (run ! i)"
  shows "bisect lt pivot run l r \<le> length run \<and>
         (\<forall>i<bisect lt pivot run l r. g (run ! i) \<le> g pivot) \<and>
         (\<forall>i. bisect lt pivot run l r \<le> i \<and> i < length run \<longrightarrow> g pivot < g (run ! i))"
  using assms(3-6)
proof (induction "r - l" arbitrary: l r rule: less_induct)
  case less
  show ?case
  proof (cases "l < r")
    case False
    then have "bisect lt pivot run l r = l"
      by (simp add: bisect.simps)
    then show ?thesis
      using less.prems False by auto
  next
    case True
    define p where "p = l + (r - l) div 2"
    have p: "l \<le> p" "p < r" "p < length run"
      using True less.prems(2) by (auto simp: p_def)
    have mono: "\<And>i j. i \<le> j \<Longrightarrow> j < length run \<Longrightarrow> g (run ! i) \<le> g (run ! j)"
      using sorted_nth_mono [OF srt] by simp
    show ?thesis
    proof (cases "lt pivot (run ! p)")
      case lt: True
      then have "g pivot < g (run ! p)"
        using lin [of "run ! p"] p(3) by simp
      then have above: "\<forall>i. p \<le> i \<and> i < length run \<longrightarrow> g pivot < g (run ! i)"
        using mono by (meson less_le_trans)
      have "bisect lt pivot run l r = bisect lt pivot run l p"
        using True lt by (subst bisect.simps) (simp add: p_def)
      moreover have "bisect lt pivot run l p \<le> length run \<and>
         (\<forall>i<bisect lt pivot run l p. g (run ! i) \<le> g pivot) \<and>
         (\<forall>i. bisect lt pivot run l p \<le> i \<and> i < length run \<longrightarrow> g pivot < g (run ! i))"
        using p less.prems above by (intro less.hyps) auto
      ultimately show ?thesis by simp
    next
      case ge: False
      then have "g (run ! p) \<le> g pivot"
        using lin [of "run ! p"] p(3) by (simp add: not_less)
      then have below: "\<forall>i<p + 1. g (run ! i) \<le> g pivot"
        using mono p(3) by (metis Suc_eq_plus1 less_Suc_eq_le order_trans)
      have "bisect lt pivot run l r = bisect lt pivot run (p + 1) r"
        using True ge by (subst bisect.simps) (simp add: p_def)
      moreover have "bisect lt pivot run (p + 1) r \<le> length run \<and>
         (\<forall>i<bisect lt pivot run (p + 1) r. g (run ! i) \<le> g pivot) \<and>
         (\<forall>i. bisect lt pivot run (p + 1) r \<le> i \<and> i < length run \<longrightarrow> g pivot < g (run ! i))"
        using p less.prems below by (intro less.hyps) auto
      ultimately show ?thesis by simp
    qed
  qed
qed

lemma insert_sorted:
  fixes g :: "'a \<Rightarrow> 'k::linorder"
  assumes "sorted (map g run)" and "l \<le> length run"
    and "\<forall>i<l. g (run ! i) \<le> g pivot"
    and "\<forall>i. l \<le> i \<and> i < length run \<longrightarrow> g pivot < g (run ! i)"
  shows "sorted (map g (take l run @ pivot # drop l run))"
proof -
  have "sorted (map g (take l run @ drop l run))"
    using assms(1) by simp
  then have parts: "sorted (map g (take l run))" "sorted (map g (drop l run))"
    by (simp_all add: sorted_append del: append_take_drop_id)
  have low: "\<forall>x \<in> set (take l run). g x \<le> g pivot"
    using assms(2,3) by (auto simp: in_set_conv_nth)
  have high: "\<forall>x \<in> set (drop l run). g pivot \<le> g x"
  proof
    fix x assume "x \<in> set (drop l run)"
    then obtain i where "i < length run - l" "x = run ! (l + i)"
      using assms(2) by (auto simp: in_set_conv_nth)
    moreover from this have "l \<le> l + i \<and> l + i < length run" by simp
    ultimately show "g pivot \<le> g x"
      using assms(4) by (blast intro: less_imp_le)
  qed
  from parts low high show ?thesis
    by (auto simp: sorted_append intro: order_trans)
qed

lemma binarysort_sorted:
  fixes g :: "'a \<Rightarrow> 'k::linorder"
  assumes "\<And>x y. x \<in> set run \<union> set rest \<Longrightarrow> y \<in> set run \<union> set rest \<Longrightarrow> lt x y \<longleftrightarrow> g x < g y"
    and "sorted (map g run)"
  shows "sorted (map g (binarysort lt run rest))"
  using assms
proof (induction rest arbitrary: run)
  case Nil
  then show ?case by simp
next
  case (Cons pivot rest)
  let ?l = "bisect lt pivot run 0 (length run)"
  let ?run' = "take ?l run @ pivot # drop ?l run"
  have "?l \<le> length run \<and> (\<forall>i<?l. g (run ! i) \<le> g pivot) \<and>
        (\<forall>i. ?l \<le> i \<and> i < length run \<longrightarrow> g pivot < g (run ! i))"
  proof (rule bisect_bounds)
    show "\<And>y. y \<in> set run \<Longrightarrow> lt pivot y \<longleftrightarrow> g pivot < g y"
      by (simp add: Cons.prems(1))
    show "sorted (map g run)" by (rule Cons.prems(2))
  qed auto
  then have srt: "sorted (map g ?run')"
    using insert_sorted [OF Cons.prems(2)] by blast
  have "set ?run' \<union> set rest = set run \<union> set (pivot # rest)"
    using set_take_drop [of ?l run] by auto
  then have "sorted (map g (binarysort lt ?run' rest))"
    using Cons.prems(1) srt by (intro Cons.IH) simp_all
  then show ?case
    by (simp add: Let_def)
qed

lemma list_sort_sorted:
  fixes g :: "'a \<Rightarrow> 'k::linorder"
  assumes lin: "\<And>x y. x \<in> set xs \<Longrightarrow> y \<in> set xs \<Longrightarrow> lt x y \<longleftrightarrow> g x < g y"
  shows "sorted (map g (list_sort lt xs))"
proof (cases xs)
  case Nil
  then show ?thesis by (simp add: list_sort_def)
next
  case (Cons x ys)
  show ?thesis
  proof (cases ys)
    case Nil
    then show ?thesis using Cons by (simp add: list_sort_def)
  next
    case (Cons y rest)
    note xs = \<open>xs = x # ys\<close> Cons
    have lin': "\<And>a b. a \<in> insert y (set rest) \<Longrightarrow> b \<in> insert y (set rest) \<Longrightarrow> lt a b \<longleftrightarrow> g a < g b"
      using lin xs by simp
    have xy: "lt y x \<longleftrightarrow> g y < g x"
      using lin xs by simp
    show ?thesis
    proof (cases "lt y x")
      case True
      let ?n = "2 + descending_run lt y rest"
      let ?run = "rev (take ?n xs)"
      have "sorted_wrt (\<lambda>a b. g b < g a) (y # take (descending_run lt y rest) rest)"
        using lin' by (rule descending_run_sorted)
      then have "sorted_wrt (\<lambda>a b. g b < g a) (take ?n xs)"
        using True xy xs by auto
      then have "sorted (map g ?run)"
        by (rule rev_descending_sorted)
      moreover have "set ?run \<union> set (drop ?n xs) = set xs"
        using set_take_drop [of ?n xs] by simp
      ultimately have "sorted (map g (binarysort lt ?run (drop ?n xs)))"
        using lin by (intro binarysort_sorted) simp_all
      then show ?thesis
        using True xs by (simp add: list_sort_def)
    next
      case False
      let ?n = "2 + ascending_run lt y rest"
      let ?run = "take ?n xs"
      have "sorted (map g (y # take (ascending_run lt y rest) rest))"
        using lin' by (rule ascending_run_sorted)
      then have "sorted (map g ?run)"
        using False xy xs by (auto simp: not_less)
      moreover have "set ?run \<union> set (drop ?n xs) = set xs"
        using set_take_drop [of ?n xs] by simp
      ultimately have "sorted (map g (binarysort lt ?run (drop ?n xs)))"
        using lin by (intro binarysort_sorted) simp_all
      then show ?thesis
        using False xs by (simp add: list_sort_def)
    qed
  qed
qed

subsection \<open>The result has the elements of the list, as often\<close>

lemma mset_take_drop: "mset (take n xs) + mset (drop n xs) = mset xs"
  using mset_append [of "take n xs" "drop n xs"] by (simp only: append_take_drop_id)

lemma mset_binarysort: "mset (binarysort lt run rest) = mset run + mset rest"
proof (induction rest arbitrary: run)
  case Nil
  show ?case by simp
next
  case (Cons pivot rest)
  let ?l = "bisect lt pivot run 0 (length run)"
  have "mset (take ?l run @ pivot # drop ?l run) = add_mset pivot (mset run)"
    using mset_take_drop [of ?l run] by simp
  then show ?case
    using Cons.IH [of "take ?l run @ pivot # drop ?l run"] by (simp add: Let_def)
qed

lemma mset_list_sort: "mset (list_sort lt xs) = mset xs"
proof (cases "length xs < 2")
  case True
  then show ?thesis by (simp add: list_sort_def)
next
  case False
  obtain n d where nd: "count_run lt xs = (n, d)"
    by (cases "count_run lt xs")
  show ?thesis
    using False nd mset_take_drop [of n xs] by (simp add: list_sort_def mset_binarysort)
qed

subsection \<open>The result keeps the order of equal keys\<close>

lemma insert_stable:
  fixes g :: "'a \<Rightarrow> 'k::linorder"
  assumes "l \<le> length run"
    and "\<forall>i. l \<le> i \<and> i < length run \<longrightarrow> g pivot < g (run ! i)"
  shows "filter (\<lambda>x. c = g x) (take l run @ pivot # drop l run) =
         filter (\<lambda>x. c = g x) (run @ [pivot])"
proof (cases "c = g pivot")
  case False
  have "filter (\<lambda>x. c = g x) (take l run @ drop l run) = filter (\<lambda>x. c = g x) run"
    by simp
  then show ?thesis
    using False by (simp del: append_take_drop_id)
next
  case True
  have "\<forall>x \<in> set (drop l run). c \<noteq> g x"
  proof
    fix x assume "x \<in> set (drop l run)"
    then obtain i where "i < length run - l" "x = run ! (l + i)"
      using assms(1) by (auto simp: in_set_conv_nth)
    moreover from this have "l \<le> l + i \<and> l + i < length run" by simp
    ultimately have "g pivot < g x"
      using assms(2) by blast
    then show "c \<noteq> g x" using True by simp
  qed
  then have none: "filter (\<lambda>x. c = g x) (drop l run) = []"
    by (simp add: filter_empty_conv)
  have "filter (\<lambda>x. c = g x) (take l run @ drop l run) = filter (\<lambda>x. c = g x) run"
    by simp
  then have "filter (\<lambda>x. c = g x) (take l run) = filter (\<lambda>x. c = g x) run"
    using none by (simp del: append_take_drop_id)
  then show ?thesis
    using none True by simp
qed

lemma binarysort_stable:
  fixes g :: "'a \<Rightarrow> 'k::linorder"
  assumes "\<And>x y. x \<in> set run \<union> set rest \<Longrightarrow> y \<in> set run \<union> set rest \<Longrightarrow> lt x y \<longleftrightarrow> g x < g y"
    and "sorted (map g run)"
  shows "filter (\<lambda>x. c = g x) (binarysort lt run rest) = filter (\<lambda>x. c = g x) (run @ rest)"
  using assms
proof (induction rest arbitrary: run)
  case Nil
  then show ?case by simp
next
  case (Cons pivot rest)
  let ?l = "bisect lt pivot run 0 (length run)"
  let ?run' = "take ?l run @ pivot # drop ?l run"
  have bounds: "?l \<le> length run \<and> (\<forall>i<?l. g (run ! i) \<le> g pivot) \<and>
        (\<forall>i. ?l \<le> i \<and> i < length run \<longrightarrow> g pivot < g (run ! i))"
  proof (rule bisect_bounds)
    show "\<And>y. y \<in> set run \<Longrightarrow> lt pivot y \<longleftrightarrow> g pivot < g y"
      by (simp add: Cons.prems(1))
    show "sorted (map g run)" by (rule Cons.prems(2))
  qed auto
  then have srt: "sorted (map g ?run')"
    using insert_sorted [OF Cons.prems(2)] by blast
  have "set ?run' \<union> set rest = set run \<union> set (pivot # rest)"
    using set_take_drop [of ?l run] by auto
  then have "filter (\<lambda>x. c = g x) (binarysort lt ?run' rest) =
             filter (\<lambda>x. c = g x) (?run' @ rest)"
    using Cons.prems(1) srt by (intro Cons.IH) simp_all
  then have step: "filter (\<lambda>x. c = g x) (binarysort lt ?run' rest) =
             filter (\<lambda>x. c = g x) ?run' @ filter (\<lambda>x. c = g x) rest"
    by (simp only: filter_append)
  have "filter (\<lambda>x. c = g x) ?run' = filter (\<lambda>x. c = g x) (run @ [pivot])"
    using bounds by (intro insert_stable) simp_all
  then have "filter (\<lambda>x. c = g x) (binarysort lt ?run' rest) =
             filter (\<lambda>x. c = g x) (run @ [pivot]) @ filter (\<lambda>x. c = g x) rest"
    using step by (simp only:)
  also have "\<dots> = filter (\<lambda>x. c = g x) (run @ pivot # rest)"
    by simp
  finally show ?case
    by (simp only: binarysort.simps Let_def)
qed

lemma rev_descending_stable:
  fixes g :: "'a \<Rightarrow> 'k::linorder"
  assumes "sorted_wrt (\<lambda>a b. g b < g a) ys"
  shows "filter (\<lambda>x. c = g x) (rev ys) = filter (\<lambda>x. c = g x) ys"
  using assms
proof (induction ys)
  case Nil
  show ?case by simp
next
  case (Cons y ys)
  then have IH: "filter (\<lambda>x. c = g x) (rev ys) = filter (\<lambda>x. c = g x) ys"
    by simp
  show ?case
  proof (cases "c = g y")
    case True
    then have "\<forall>x \<in> set ys. c \<noteq> g x"
      using Cons.prems by auto
    then have "filter (\<lambda>x. c = g x) ys = []"
      by (simp add: filter_empty_conv)
    then show ?thesis
      using IH True by simp
  next
    case False
    then show ?thesis using IH by simp
  qed
qed

lemma list_sort_stable:
  fixes g :: "'a \<Rightarrow> 'k::linorder"
  assumes lin: "\<And>x y. x \<in> set xs \<Longrightarrow> y \<in> set xs \<Longrightarrow> lt x y \<longleftrightarrow> g x < g y"
  shows "filter (\<lambda>x. c = g x) (list_sort lt xs) = filter (\<lambda>x. c = g x) xs"
proof (cases xs)
  case Nil
  then show ?thesis by (simp add: list_sort_def)
next
  case (Cons x ys)
  show ?thesis
  proof (cases ys)
    case Nil
    then show ?thesis using Cons by (simp add: list_sort_def)
  next
    case (Cons y rest)
    note xs = \<open>xs = x # ys\<close> Cons
    have lin': "\<And>a b. a \<in> insert y (set rest) \<Longrightarrow> b \<in> insert y (set rest) \<Longrightarrow> lt a b \<longleftrightarrow> g a < g b"
      using lin xs by simp
    have xy: "lt y x \<longleftrightarrow> g y < g x"
      using lin xs by simp
    show ?thesis
    proof (cases "lt y x")
      case True
      let ?n = "2 + descending_run lt y rest"
      let ?run = "rev (take ?n xs)"
      have "sorted_wrt (\<lambda>a b. g b < g a) (y # take (descending_run lt y rest) rest)"
        using lin' by (rule descending_run_sorted)
      then have desc: "sorted_wrt (\<lambda>a b. g b < g a) (take ?n xs)"
        using True xy xs by auto
      then have "sorted (map g ?run)"
        by (rule rev_descending_sorted)
      moreover have "set ?run \<union> set (drop ?n xs) = set xs"
        using set_take_drop [of ?n xs] by simp
      ultimately have "filter (\<lambda>x. c = g x) (binarysort lt ?run (drop ?n xs)) =
          filter (\<lambda>x. c = g x) (?run @ drop ?n xs)"
        using lin by (intro binarysort_stable) simp_all
      also have "\<dots> = filter (\<lambda>x. c = g x) (take ?n xs @ drop ?n xs)"
        using rev_descending_stable [OF desc, of c] by (simp del: append_take_drop_id)
      finally show ?thesis
        using True xs by (simp add: list_sort_def)
    next
      case False
      let ?n = "2 + ascending_run lt y rest"
      let ?run = "take ?n xs"
      have "sorted (map g (y # take (ascending_run lt y rest) rest))"
        using lin' by (rule ascending_run_sorted)
      then have "sorted (map g ?run)"
        using False xy xs by (auto simp: not_less)
      moreover have "set ?run \<union> set (drop ?n xs) = set xs"
        using set_take_drop [of ?n xs] by simp
      ultimately have "filter (\<lambda>x. c = g x) (binarysort lt ?run (drop ?n xs)) =
          filter (\<lambda>x. c = g x) (?run @ drop ?n xs)"
        using lin by (intro binarysort_stable) simp_all
      then show ?thesis
        using False xs by (simp add: list_sort_def)
    qed
  qed
qed

lemma float_lt_num:
  "a \<noteq> NaN \<Longrightarrow> b \<noteq> NaN \<Longrightarrow> float_lt a b \<longleftrightarrow> num a < num b"
  by (cases a; cases b) simp_all

lemma float_le_num:
  "a \<noteq> NaN \<Longrightarrow> b \<noteq> NaN \<Longrightarrow> float_le a b \<longleftrightarrow> num a \<le> num b"
  by (cases a; cases b) simp_all

text \<open>
  On keys without NaN, \<^verbatim>\<open>sorted\<close> is the stable ascending sort by the numbers of the keys:
  the result is a permutation, it is sorted, and elements of equal key keep their order.
\<close>

lemma sorted_py_stable_sort:
  fixes key :: "'a \<Rightarrow> ('k::linorder) pyfloat"
  assumes "\<forall>x \<in> set xs. key x \<noteq> NaN"
  shows "sorted_py key xs = sort_key (\<lambda>x. num (key x)) xs"
proof -
  let ?lt = "\<lambda>x y. float_lt (key x) (key y)"
  let ?g = "\<lambda>x. num (key x)"
  have lin: "\<And>x y. x \<in> set xs \<Longrightarrow> y \<in> set xs \<Longrightarrow> ?lt x y \<longleftrightarrow> ?g x < ?g y"
    using assms by (simp add: float_lt_num)
  have "sort_key ?g xs = list_sort ?lt xs"
  proof (rule properties_for_sort_key)
    show "mset (list_sort ?lt xs) = mset xs"
      by (rule mset_list_sort)
    show "sorted (map ?g (list_sort ?lt xs))"
      using lin by (rule list_sort_sorted)
    show "\<And>k. k \<in> set (list_sort ?lt xs) \<Longrightarrow>
        filter (\<lambda>x. ?g k = ?g x) (list_sort ?lt xs) = filter (\<lambda>x. ?g k = ?g x) xs"
      using lin by (rule list_sort_stable)
  qed
  then show ?thesis
    by (simp add: sorted_py_def)
qed

lemma set_sorted_py: "set (sorted_py key xs) = set xs"
  by (simp add: sorted_py_def set_list_sort)

section \<open>The comprehension is a filter\<close>

lemma comprehension_parsed:
  "Comp formula = Inr r \<Longrightarrow>
   comprehension Comp entries formula = Inr (filter (same_reduced_formula r) entries)"
  by (induction entries) (simp_all add: same_reduced_formula_def)

lemma comprehension_raised:
  "Comp formula = Inl x \<Longrightarrow> entries \<noteq> [] \<Longrightarrow>
   comprehension Comp entries formula = Inl (Raised x)"
  by (cases entries) simp_all

lemma relevant_entries_parsed:
  "Comp formula = Inr r \<Longrightarrow>
   relevant_entries Comp entries formula =
     Inr (sorted_py energy_per_atom (filter (same_reduced_formula r) entries))"
  by (simp add: relevant_entries_def comprehension_parsed)

lemma get_most_stable_entry_parsed:
  "Comp formula = Inr r \<Longrightarrow>
   get_most_stable_entry Comp entries formula =
     (case sorted_py energy_per_atom (filter (same_reduced_formula r) entries) of
        [] \<Rightarrow> Inl IndexError
      | first # _ \<Rightarrow> Inr first)"
  by (simp add: get_most_stable_entry_def relevant_entries_parsed)

text \<open>An unparsable formula raises in the library, unless there is no entry at all.\<close>

lemma get_most_stable_entry_raised:
  "Comp formula = Inl x \<Longrightarrow> entries \<noteq> [] \<Longrightarrow>
   get_most_stable_entry Comp entries formula = Inl (Raised x)"
  by (simp add: get_most_stable_entry_def relevant_entries_def comprehension_raised)

lemma get_most_stable_entry_Nil:
  "get_most_stable_entry Comp [] formula = Inl IndexError"
  by (simp add: get_most_stable_entry_def relevant_entries_def sorted_py_Nil)

subsection \<open>The concrete inputs, evaluated\<close>

lemma Comp_example_CaO: "Comp_example ''CaO'' = Inr ''CaO''"
  by (simp add: Comp_example_def)

lemma Comp_example_Ca2O2: "Comp_example ''Ca2O2'' = Inr ''CaO''"
  by (simp add: Comp_example_def)

lemma Comp_example_CO2: "Comp_example ''CO2'' = Inr ''CO2''"
  by (simp add: Comp_example_def)

lemma CaO_in_example:
  "\<exists>entry \<in> set entries_example. same_reduced_formula ''CaO'' entry"
  by (simp add: entries_example_def entry_example_def same_reduced_formula_def)

text \<open>Of the two entries of energy \<open>- 7\<close> the earlier one is returned.\<close>

lemma get_most_stable_entry_example:
  "get_most_stable_entry Comp_example entries_example ''CaO'' =
     Inr (entry_example ''c'' ''CaO'' (- 7))"
  by code_simp

lemma no_NaN_in_example:
  "\<forall>entry \<in> set entries_example.
     same_reduced_formula ''CaO'' entry \<longrightarrow> energy_per_atom entry \<noteq> NaN"
  by (simp add: entries_example_def entry_example_def)

section \<open>The entry returned\<close>

text \<open>
  C1, as the code has it. For a formula that the library reduces to \<open>r\<close> and a list of
  entries with at least one entry of reduced formula \<open>r\<close>, none of these entries having
  the energy NaN: \<^verbatim>\<open>relevant_entries\<close> is a non-empty list, sorted ascending by energy
  per atom, of exactly the entries of reduced formula \<open>r\<close>; \<^verbatim>\<open>get_most_stable_entry\<close>
  returns its first element; and that element is an entry of the list, of reduced
  formula \<open>r\<close>, whose energy per atom is minimal among all entries of reduced formula \<open>r\<close>.
\<close>

theorem get_most_stable_entry_lowest:
  fixes entries :: "('k::linorder) computed_entry list"
  assumes "Comp formula = Inr r"
    and "\<exists>entry \<in> set entries. same_reduced_formula r entry"
    and "\<forall>entry \<in> set entries. same_reduced_formula r entry \<longrightarrow> energy_per_atom entry \<noteq> NaN"
  shows "\<exists>first rest.
           relevant_entries Comp entries formula = Inr (first # rest) \<and>
           sorted_wrt float_le (map energy_per_atom (first # rest)) \<and>
           set (first # rest) = {entry \<in> set entries. same_reduced_formula r entry} \<and>
           get_most_stable_entry Comp entries formula = Inr first \<and>
           first \<in> set entries \<and> same_reduced_formula r first \<and>
           (\<forall>entry \<in> set entries.
              same_reduced_formula r entry \<longrightarrow>
              float_le (energy_per_atom first) (energy_per_atom entry))"
proof -
  let ?kept = "filter (same_reduced_formula r) entries"
  let ?sorted = "sorted_py energy_per_atom ?kept"
  let ?g = "\<lambda>entry. num (energy_per_atom entry)"
  from assms(3) have no_nan: "\<forall>entry \<in> set ?kept. energy_per_atom entry \<noteq> NaN"
    by simp
  then have stable: "?sorted = sort_key ?g ?kept"
    by (rule sorted_py_stable_sort)
  from assms(2) have "?kept \<noteq> []"
    by (auto simp: filter_empty_conv)
  then have "?sorted \<noteq> []"
    using stable length_sort [of ?g ?kept] by (metis length_0_conv)
  then obtain first rest where sorted_eq: "?sorted = first # rest"
    by (cases ?sorted) auto
  have rel: "relevant_entries Comp entries formula = Inr (first # rest)"
    using relevant_entries_parsed [where Comp = Comp and formula = formula and r = r
        and entries = entries] assms(1) sorted_eq
    by simp
  have st: "set (first # rest) = {entry \<in> set entries. same_reduced_formula r entry}"
    using set_sorted_py [of energy_per_atom ?kept] sorted_eq by auto
  then have numbers: "\<forall>entry \<in> set (first # rest). energy_per_atom entry \<noteq> NaN"
    using assms(3) by blast
  have "sorted (map ?g (first # rest))"
    using sorted_sort_key [of ?g ?kept] stable sorted_eq by simp
  then have by_number: "sorted_wrt (\<lambda>a b. ?g a \<le> ?g b) (first # rest)"
    by (simp only: sorted_map)
  have "sorted_wrt (\<lambda>a b. float_le (energy_per_atom a) (energy_per_atom b)) (first # rest)"
  proof (rule sorted_wrt_mono_rel [OF _ by_number])
    fix a b
    assume a: "a \<in> set (first # rest)" and b: "b \<in> set (first # rest)"
      and le: "?g a \<le> ?g b"
    have "energy_per_atom a \<noteq> NaN" "energy_per_atom b \<noteq> NaN"
      using numbers a b by blast+
    then show "float_le (energy_per_atom a) (energy_per_atom b)"
      using le by (simp add: float_le_num)
  qed
  then have srt: "sorted_wrt float_le (map energy_per_atom (first # rest))"
    by (simp only: sorted_wrt_map)
  have res: "get_most_stable_entry Comp entries formula = Inr first"
    using get_most_stable_entry_parsed [where Comp = Comp and formula = formula and r = r
        and entries = entries] assms(1) sorted_eq
    by simp
  have mem: "first \<in> set entries \<and> same_reduced_formula r first"
    using st by auto
  have least: "\<forall>entry \<in> set entries.
      same_reduced_formula r entry \<longrightarrow> float_le (energy_per_atom first) (energy_per_atom entry)"
  proof (intro ballI impI)
    fix entry
    assume "entry \<in> set entries" and "same_reduced_formula r entry"
    then have "entry \<in> set (first # rest)"
      using st by simp
    then have "entry = first \<or> entry \<in> set rest"
      by simp
    then have "?g first \<le> ?g entry"
      using by_number by auto
    moreover have "energy_per_atom first \<noteq> NaN" "energy_per_atom entry \<noteq> NaN"
      using numbers \<open>entry \<in> set (first # rest)\<close> by auto
    ultimately show "float_le (energy_per_atom first) (energy_per_atom entry)"
      by (simp add: float_le_num)
  qed
  from rel srt st res mem least show ?thesis
    by blast
qed

text \<open>
  C1 as amended, at the five entries and the formula \<^verbatim>\<open>CaO\<close>: three entries match, none
  with the energy NaN, and the one returned is the entry \<open>c\<close>, of energy \<open>- 7\<close>.
\<close>

theorem get_most_stable_entry_lowest_witness:
  "Comp_example ''CaO'' = Inr ''CaO'' \<and>
   (\<exists>entry \<in> set entries_example. same_reduced_formula ''CaO'' entry) \<and>
   NaN \<notin> energy_per_atom ` set (filter (same_reduced_formula ''CaO'') entries_example) \<and>
   (\<exists>first rest.
      relevant_entries Comp_example entries_example ''CaO'' = Inr (first # rest) \<and>
      sorted_wrt float_le (map energy_per_atom (first # rest)) \<and>
      set (first # rest) = {entry \<in> set entries_example. same_reduced_formula ''CaO'' entry} \<and>
      get_most_stable_entry Comp_example entries_example ''CaO'' = Inr first \<and>
      first \<in> set entries_example \<and> same_reduced_formula ''CaO'' first \<and>
      (\<forall>entry \<in> set entries_example.
         same_reduced_formula ''CaO'' entry \<longrightarrow>
         float_le (energy_per_atom first) (energy_per_atom entry))) \<and>
   get_most_stable_entry Comp_example entries_example ''CaO'' =
     Inr (entry_example ''c'' ''CaO'' (- 7))"
proof -
  have "NaN \<notin> energy_per_atom ` set (filter (same_reduced_formula ''CaO'') entries_example)"
    using no_NaN_in_example by auto
  then show ?thesis
    using get_most_stable_entry_lowest [where Comp = Comp_example and formula = "''CaO''"
        and r = "''CaO''" and entries = entries_example]
      Comp_example_CaO CaO_in_example no_NaN_in_example get_most_stable_entry_example
    by blast
qed

text \<open>
  C1 as the specification states it does not hold. Of three entries of \<^verbatim>\<open>CaO\<close> with the
  energies \<open>- 6\<close>, NaN and \<open>- 7\<close>, no element is less than the one before it, so
  \<^verbatim>\<open>sorted\<close> leaves the list as it is: the list is not ascending, and the entry returned is
  \<open>a\<close>, of energy \<open>- 6\<close>, although the entry \<open>c\<close> of the same composition has the energy
  \<open>- 7\<close>.
\<close>

theorem get_most_stable_entry_nan_not_lowest:
  "Comp_example ''CaO'' = Inr ''CaO'' \<and>
   relevant_entries Comp_example entries_nan_example ''CaO'' = Inr entries_nan_example \<and>
   \<not> sorted_wrt float_le (map energy_per_atom entries_nan_example) \<and>
   get_most_stable_entry Comp_example entries_nan_example ''CaO'' =
     Inr (entry_example ''a'' ''CaO'' (- 6)) \<and>
   entry_example ''c'' ''CaO'' (- 7) \<in> set entries_nan_example \<and>
   same_reduced_formula ''CaO'' (entry_example ''c'' ''CaO'' (- 7)) \<and>
   float_lt (energy_per_atom (entry_example ''c'' ''CaO'' (- 7)))
            (energy_per_atom (entry_example ''a'' ''CaO'' (- 6))) \<and>
   \<not> float_le (energy_per_atom (entry_example ''a'' ''CaO'' (- 6)))
              (energy_per_atom (entry_example ''c'' ''CaO'' (- 7)))"
  by code_simp

section \<open>No entry of the requested composition\<close>

lemma no_CO2_in_singleton:
  "\<forall>entry \<in> set [entry_example ''a'' ''CaO'' (- 6)]. \<not> same_reduced_formula ''CO2'' entry"
  by (simp add: entry_example_def same_reduced_formula_def)

text \<open>
  C2, as the code has it. For a formula that the library reduces to \<open>r\<close> and a list of
  entries none of which has the reduced formula \<open>r\<close>, \<^verbatim>\<open>get_most_stable_entry\<close> fails
  with Python's \<^verbatim>\<open>IndexError\<close>, the error of \<^verbatim>\<open>relevant_entries[0]\<close> on the empty list,
  and with no other error.
\<close>

theorem get_most_stable_entry_no_entry:
  fixes entries :: "('k::linorder) computed_entry list"
  assumes "Comp formula = Inr r"
    and "\<forall>entry \<in> set entries. \<not> same_reduced_formula r entry"
  shows "get_most_stable_entry Comp entries formula = Inl IndexError"
proof -
  from assms(2) have "filter (same_reduced_formula r) entries = []"
    by (simp add: filter_empty_conv)
  then show ?thesis
    using get_most_stable_entry_parsed [where Comp = Comp and formula = formula and r = r
        and entries = entries] assms(1)
    by (simp add: sorted_py_Nil)
qed

text \<open>C2 as amended, at a list that holds one entry of \<^verbatim>\<open>CaO\<close> and the formula \<^verbatim>\<open>CO2\<close>.\<close>

theorem get_most_stable_entry_no_entry_witness:
  "Comp_example ''CO2'' = Inr ''CO2'' \<and>
   \<not> same_reduced_formula ''CO2'' (entry_example ''a'' ''CaO'' (- 6)) \<and>
   get_most_stable_entry Comp_example [entry_example ''a'' ''CaO'' (- 6)] ''CO2'' = Inl IndexError"
  using get_most_stable_entry_no_entry [where Comp = Comp_example and formula = "''CO2''"
      and r = "''CO2''" and entries = "[entry_example ''a'' ''CaO'' (- 6)]"]
    Comp_example_CO2 no_CO2_in_singleton
  by simp

text \<open>
  C2 as the specification states it does not hold: \<^verbatim>\<open>CO2\<close> is a composition, the list
  holds no entry of it, and the call fails with \<^verbatim>\<open>IndexError\<close>, which is not the
  \<^verbatim>\<open>NotFoundError\<close> of the specification.
\<close>

theorem get_most_stable_entry_not_NotFoundError:
  "Comp_example ''CO2'' = Inr ''CO2'' \<and>
   \<not> same_reduced_formula ''CO2'' (entry_example ''a'' ''CaO'' (- 6)) \<and>
   get_most_stable_entry Comp_example [entry_example ''a'' ''CaO'' (- 6)] ''CO2'' =
     Inl IndexError \<and>
   get_most_stable_entry Comp_example [entry_example ''a'' ''CaO'' (- 6)] ''CO2'' \<noteq>
     Inl NotFoundError"
  by (simp add: get_most_stable_entry_def relevant_entries_def Comp_example_def
      entry_example_def same_reduced_formula_def sorted_py_Nil)

section \<open>Only the reduced formula of the argument matters\<close>

text \<open>
  C9. Two formula strings that the library reduces to the same reduced formula give the
  same result of \<^verbatim>\<open>get_most_stable_entry\<close>, on every list of entries: the same entry,
  or the same failure.
\<close>

theorem get_most_stable_entry_reduced_formula_only:
  fixes entries :: "('k::linorder) computed_entry list"
  assumes "Comp formula = Inr r" and "Comp other = Inr r"
  shows "get_most_stable_entry Comp entries formula =
         get_most_stable_entry Comp entries other"
  using get_most_stable_entry_parsed [where Comp = Comp and formula = formula and r = r
      and entries = entries]
    get_most_stable_entry_parsed [where Comp = Comp and formula = other and r = r
      and entries = entries] assms
  by simp

text \<open>C9 at \<^verbatim>\<open>CaO\<close> and \<^verbatim>\<open>Ca2O2\<close>: both calls return the entry \<open>c\<close>.\<close>

theorem get_most_stable_entry_reduced_formula_only_witness:
  "Comp_example ''CaO'' = Inr ''CaO'' \<and> Comp_example ''Ca2O2'' = Inr ''CaO'' \<and>
   get_most_stable_entry Comp_example entries_example ''CaO'' =
     get_most_stable_entry Comp_example entries_example ''Ca2O2'' \<and>
   get_most_stable_entry Comp_example entries_example ''Ca2O2'' =
     Inr (entry_example ''c'' ''CaO'' (- 7))"
  using get_most_stable_entry_reduced_formula_only [where Comp = Comp_example
      and formula = "''CaO''" and other = "''Ca2O2''" and r = "''CaO''"
      and entries = entries_example]
    Comp_example_CaO Comp_example_Ca2O2 get_most_stable_entry_example
  by simp

section \<open>The call leaves the repository as it was\<close>

subsection \<open>The loop of the comprehension\<close>

lemma loop_finished:
  "\<not> i < length (heap s ! all_entries s) \<Longrightarrow>
   comprehension_loop Comp formula result i s = Some (None, s)"
  by (subst comprehension_loop.simps) simp

lemma loop_raised:
  "i < length (heap s ! all_entries s) \<Longrightarrow> Comp formula = Inl x \<Longrightarrow>
   comprehension_loop Comp formula result i s = Some (Some (Raised x), s)"
  by (subst comprehension_loop.simps) simp

lemma loop_step:
  "i < length (heap s ! all_entries s) \<Longrightarrow> Comp formula = Inr r \<Longrightarrow>
   comprehension_loop Comp formula result i s =
     comprehension_loop Comp formula result (Suc i)
       (if same_reduced_formula r (heap s ! all_entries s ! i)
        then list_append result (heap s ! all_entries s ! i) s else s)"
  by (subst comprehension_loop.simps) (simp add: same_reduced_formula_def)

text \<open>Appending to another list changes neither the binding nor the list iterated over.\<close>

lemma list_append_frame:
  "result \<noteq> all_entries s \<Longrightarrow>
   all_entries (list_append result x s) = all_entries s \<and>
   length (heap (list_append result x s)) = length (heap s) \<and>
   heap (list_append result x s) ! all_entries s = heap s ! all_entries s"
  by (simp add: list_append_def)

lemma list_append_result:
  "result < length (heap s) \<Longrightarrow>
   (list_append result x s)\<lparr>heap := (heap (list_append result x s))
        [result := heap (list_append result x s) ! result @ ys]\<rparr>
   = s\<lparr>heap := (heap s)[result := heap s ! result @ x # ys]\<rparr>"
  by (simp add: list_append_def)

text \<open>
  The loop returns when the list under construction is not the list iterated over, and
  it has then appended the entries that pass the test, in their order, from index \<open>i\<close> on.
  The induction is on the number of entries still to visit.
\<close>

lemma loop_parsed:
  assumes "Comp formula = Inr r"
    and "result \<noteq> all_entries s" and "result < length (heap s)"
  shows "comprehension_loop Comp formula result i s =
     Some (None, s\<lparr>heap := (heap s)[result := heap s ! result @
        filter (same_reduced_formula r) (drop i (heap s ! all_entries s))]\<rparr>)"
  using assms(2,3)
proof (induction "length (heap s ! all_entries s) - i" arbitrary: i s)
  case 0
  then have "\<not> i < length (heap s ! all_entries s)" by simp
  then show ?case
    by (simp add: loop_finished)
next
  case (Suc n)
  let ?xs = "heap s ! all_entries s"
  let ?s' = "if same_reduced_formula r (?xs ! i) then list_append result (?xs ! i) s else s"
  from Suc.hyps(2) have less: "i < length ?xs" by simp
  have frame: "all_entries ?s' = all_entries s" "length (heap ?s') = length (heap s)"
      "heap ?s' ! all_entries s = ?xs"
    using list_append_frame [OF Suc.prems(1)] by simp_all
  have "n = length (heap ?s' ! all_entries ?s') - Suc i"
    using Suc.hyps(2) frame by simp
  moreover have "result \<noteq> all_entries ?s'" "result < length (heap ?s')"
    using Suc.prems frame by simp_all
  ultimately have "comprehension_loop Comp formula result (Suc i) ?s' =
     Some (None, ?s'\<lparr>heap := (heap ?s')[result := heap ?s' ! result @
        filter (same_reduced_formula r) (drop (Suc i) (heap ?s' ! all_entries ?s'))]\<rparr>)"
    by (rule Suc.hyps(1))
  also have "heap ?s' ! all_entries ?s' = ?xs"
    using frame by simp
  finally have "comprehension_loop Comp formula result i s =
     Some (None, ?s'\<lparr>heap := (heap ?s')[result := heap ?s' ! result @
        filter (same_reduced_formula r) (drop (Suc i) ?xs)]\<rparr>)"
    using loop_step [where Comp = Comp and formula = formula and r = r and i = i and s = s
        and result = result] less assms(1)
    by simp
  moreover have "drop i ?xs = ?xs ! i # drop (Suc i) ?xs"
    using less by (simp add: Cons_nth_drop_Suc)
  ultimately show ?case
    using list_append_result [OF Suc.prems(2)] by simp
qed

subsection \<open>The call on the store agrees with the function on values\<close>

lemma get_most_stable_entry_st_refines:
  fixes s :: "('k::linorder) store"
  assumes "well_formed s"
  shows "\<exists>allocated.
     get_most_stable_entry_st Comp formula s =
       Some (get_most_stable_entry Comp (heap s ! all_entries s) formula,
             s\<lparr>heap := heap s @ allocated\<rparr>)"
proof -
  let ?entries = "heap s ! all_entries s"
  let ?result = "length (heap s)"
  let ?s1 = "s\<lparr>heap := heap s @ [ [] ]\<rparr>"
  from assms have valid: "all_entries s < length (heap s)"
    by (simp add: well_formed_def)
  then have s1: "heap ?s1 ! all_entries ?s1 = ?entries" "?result \<noteq> all_entries ?s1"
      "?result < length (heap ?s1)"
    by (simp_all add: nth_append)
  show ?thesis
  proof (cases "Comp formula")
    case (Inl x)
    show ?thesis
    proof (cases "?entries = []")
      case True
      then have "comprehension_loop Comp formula ?result 0 ?s1 = Some (None, ?s1)"
        using s1(1) by (simp add: loop_finished)
      then have "get_most_stable_entry_st Comp formula s =
          Some (Inl IndexError, s\<lparr>heap := heap s @ [ [], [] ]\<rparr>)"
        by (simp add: get_most_stable_entry_st_def new_list_def sorted_py_Nil)
      then show ?thesis
        using True by (auto simp: get_most_stable_entry_Nil)
    next
      case False
      then have "0 < length (heap ?s1 ! all_entries ?s1)"
        using s1(1) by simp
      then have "comprehension_loop Comp formula ?result 0 ?s1 = Some (Some (Raised x), ?s1)"
        using Inl by (rule loop_raised)
      then have "get_most_stable_entry_st Comp formula s = Some (Inl (Raised x), ?s1)"
        by (simp add: get_most_stable_entry_st_def new_list_def)
      then show ?thesis
        using get_most_stable_entry_raised [where Comp = Comp and formula = formula and x = x
            and entries = ?entries] Inl False
        by auto
    qed
  next
    case (Inr r)
    let ?kept = "filter (same_reduced_formula r) ?entries"
    let ?sorted = "sorted_py energy_per_atom ?kept"
    have "comprehension_loop Comp formula ?result 0 ?s1 =
        Some (None, ?s1\<lparr>heap := (heap ?s1)[?result := heap ?s1 ! ?result @
          filter (same_reduced_formula r) (drop 0 (heap ?s1 ! all_entries ?s1))]\<rparr>)"
      using Inr s1(2,3) by (rule loop_parsed)
    then have loop: "comprehension_loop Comp formula ?result 0 ?s1 =
        Some (None, s\<lparr>heap := heap s @ [?kept]\<rparr>)"
      using valid by (simp add: nth_append)
    have "get_most_stable_entry_st Comp formula s =
        Some (case ?sorted of [] \<Rightarrow> Inl IndexError | first # _ \<Rightarrow> Inr first,
              s\<lparr>heap := heap s @ [?kept, ?sorted]\<rparr>)"
      by (simp add: get_most_stable_entry_st_def new_list_def loop nth_append
          split: list.split)
    then show ?thesis
      using get_most_stable_entry_parsed [where Comp = Comp and formula = formula and r = r
          and entries = ?entries] Inr
      by auto
  qed
qed

subsection \<open>The concrete store, evaluated\<close>

lemma well_formed_example: "well_formed store_example"
  by (simp add: well_formed_def store_example_def)

text \<open>
  The call allocates two lists, the entries kept and the entries sorted; the list of
  \<^verbatim>\<open>all_entries\<close>, at address 1, keeps its five entries in their order.
\<close>

lemma get_most_stable_entry_st_example:
  "get_most_stable_entry_st Comp_example ''CaO'' store_example =
     Some (Inr (entry_example ''c'' ''CaO'' (- 7)),
           \<lparr>heap = [ [], entries_example,
                    [entry_example ''a'' ''CaO'' (- 6), entry_example ''c'' ''CaO'' (- 7),
                     entry_example ''e'' ''CaO'' (- 7)],
                    [entry_example ''c'' ''CaO'' (- 7), entry_example ''e'' ''CaO'' (- 7),
                     entry_example ''a'' ''CaO'' (- 6)] ],
             all_entries = 1\<rparr>)"
  by (simp add: get_most_stable_entry_st_def new_list_def store_example_def
      comprehension_loop.simps list_append_def Comp_example_def entries_example_def
      entry_example_def Let_def sorted_py_def list_sort_def bisect.simps)

subsection \<open>The frame of the call\<close>

text \<open>
  C10. On a well-formed store every call of \<^verbatim>\<open>get_most_stable_entry\<close> returns (with an
  entry or with an exception, the outcome that the function on values computes from the
  list of \<^verbatim>\<open>all_entries\<close>), and in the store it leaves the name \<^verbatim>\<open>all_entries\<close> is bound to
  the same list object, that object holds the same entries in the same order, and every
  list object that existed before the call is unchanged: the call only allocates new
  lists.
\<close>

theorem get_most_stable_entry_frame:
  fixes s :: "('k::linorder) store"
  assumes "well_formed s"
  shows "\<exists>outcome s'.
     get_most_stable_entry_st Comp formula s = Some (outcome, s') \<and>
     outcome = get_most_stable_entry Comp (heap s ! all_entries s) formula \<and>
     all_entries s' = all_entries s \<and>
     heap s' ! all_entries s' = heap s ! all_entries s \<and>
     take (length (heap s)) (heap s') = heap s"
proof -
  from get_most_stable_entry_st_refines [OF assms, of Comp formula]
  obtain allocated where
    "get_most_stable_entry_st Comp formula s =
       Some (get_most_stable_entry Comp (heap s ! all_entries s) formula,
             s\<lparr>heap := heap s @ allocated\<rparr>)"
    by blast
  moreover have "heap (s\<lparr>heap := heap s @ allocated\<rparr>) ! all_entries s = heap s ! all_entries s"
    using assms by (simp add: well_formed_def nth_append)
  ultimately show ?thesis
    by simp
qed

text \<open>
  C10 at the concrete store and the formula \<^verbatim>\<open>CaO\<close>: the store grows from two list
  objects to four, and the list of \<^verbatim>\<open>all_entries\<close> is the five entries as before.
\<close>

theorem get_most_stable_entry_frame_witness:
  "well_formed store_example \<and>
   (\<exists>outcome s'.
      get_most_stable_entry_st Comp_example ''CaO'' store_example = Some (outcome, s') \<and>
      outcome = get_most_stable_entry Comp_example
                  (heap store_example ! all_entries store_example) ''CaO'' \<and>
      all_entries s' = all_entries store_example \<and>
      heap s' ! all_entries s' = heap store_example ! all_entries store_example \<and>
      take (length (heap store_example)) (heap s') = heap store_example) \<and>
   heap store_example ! all_entries store_example = entries_example \<and>
   length (heap (snd (the (get_most_stable_entry_st Comp_example ''CaO'' store_example)))) = 4"
  using get_most_stable_entry_frame [where s = store_example and Comp = Comp_example
      and formula = "''CaO''"] well_formed_example get_most_stable_entry_st_example
  by (simp add: store_example_def)

section \<open>What is not modelled\<close>

text \<open>
  The other steps of the two notebooks are calls into the library, on data fetched from
  a remote database: the balancing of a reaction and its energy, the ordering and the
  enumeration of a disordered structure, the grouping of structures. The repository holds
  no code for them.
\<close>

end
